theory Spec2Isabelle
  imports Main "HOL-Library.Word"
begin

section \<open>rscode: rsync-style escaping of file names (src/rscode.c)\<close>

text \<open>
  A shallow embedding of \<^verbatim>\<open>rscode.c\<close>. A C string (\<^verbatim>\<open>const char *s\<close>) is the list of the
  bytes before its terminating NUL, so \<^verbatim>\<open>*s\<close> of the empty list is the NUL itself, and
  \<^verbatim>\<open>s++\<close> is the tail. Bytes are 8-bit words: the value \<^verbatim>\<open>(unsigned char)*s\<close> that
  \<^verbatim>\<open>fprintf\<close> and \<^verbatim>\<open>putchar\<close> work with. What a function writes to standard output is
  the byte list it returns.
\<close>

subsection \<open>Bytes and the character classes of the C locale\<close>

type_synonym byte = "8 word"

abbreviation NUL :: byte where "NUL \<equiv> 0x00"
abbreviation LF :: byte where "LF \<equiv> 0x0A"
abbreviation HASH :: byte where "HASH \<equiv> 0x23"
abbreviation BSLASH :: byte where "BSLASH \<equiv> 0x5C"

text \<open>\<^verbatim>\<open>*s\<close>: the first byte of the string, the terminating NUL when it is empty.\<close>

definition deref :: "byte list \<Rightarrow> byte" where
  "deref s = (case s of [] \<Rightarrow> NUL | c # _ \<Rightarrow> c)"

text \<open>
  \<^verbatim>\<open>isodigit\<close> is the program's own; \<^verbatim>\<open>isdigit\<close>, \<^verbatim>\<open>isprint\<close> and \<^verbatim>\<open>isascii\<close> are the C
  library's, in the C locale (the program never calls \<^verbatim>\<open>setlocale\<close>). A byte above 0x7F is
  in none of the first three classes and is not ASCII, whether \<^verbatim>\<open>char\<close> is signed or not.
\<close>

definition isodigit :: "byte \<Rightarrow> bool" where
  "isodigit c \<longleftrightarrow> 0x30 \<le> c \<and> c \<le> 0x37"

definition isdigit :: "byte \<Rightarrow> bool" where
  "isdigit c \<longleftrightarrow> 0x30 \<le> c \<and> c \<le> 0x39"

definition isprint :: "byte \<Rightarrow> bool" where
  "isprint c \<longleftrightarrow> 0x20 \<le> c \<and> c \<le> 0x7E"

definition isascii :: "byte \<Rightarrow> bool" where
  "isascii c \<longleftrightarrow> c < 0x80"

subsection \<open>Escape sequences\<close>

text \<open>
  \<^verbatim>\<open>iseseq(s, strict)\<close>: does \<open>s\<close> start with \<^verbatim>\<open>\#ooo\<close>? The three digits are octal digits
  when \<open>strict\<close>, decimal digits otherwise.
\<close>

definition iseseq :: "byte list \<Rightarrow> bool \<Rightarrow> bool" where
  "iseseq s strict =
     (if deref s \<noteq> BSLASH then False
      else if length s < 5 then False
      else if s ! 1 \<noteq> HASH then False
      else (let fn = (if strict then isodigit else isdigit)
            in fn (s ! 2) \<and> fn (s ! 3) \<and> fn (s ! 4)))"

text \<open>
  \<^verbatim>\<open>strtol(tmp, NULL, 8)\<close> on a buffer that holds digits only: the value of the longest
  prefix of octal digits. (The white space, sign and range handling of \<^verbatim>\<open>strtol\<close> is not
  modelled: \<^verbatim>\<open>parseeseq\<close> hands it three bytes.)
\<close>

fun strtol8 :: "int \<Rightarrow> byte list \<Rightarrow> int" where
  "strtol8 acc [] = acc"
| "strtol8 acc (c # cs) =
     (if isodigit c then strtol8 (acc * 8 + (uint c - 0x30)) cs else acc)"

text \<open>\<^verbatim>\<open>parseeseq(s)\<close>: copy \<^verbatim>\<open>s[2..4]\<close> and read it as an octal number.\<close>

definition parseeseq :: "byte list \<Rightarrow> int" where
  "parseeseq s = strtol8 0 (take 3 (drop 2 s))"

text \<open>
  \<^verbatim>\<open>printf("%03o", n)\<close>: the octal digits of \<open>n\<close>, most significant first, padded with
  zeros on the left to at least three.
\<close>

fun octal :: "nat \<Rightarrow> byte list" where
  "octal n = (if n < 8 then [] else octal (n div 8)) @ [0x30 + of_nat (n mod 8)]"

definition printf_03o :: "nat \<Rightarrow> byte list" where
  "printf_03o n = replicate (3 - length (octal n)) 0x30 @ octal n"

text \<open>\<^verbatim>\<open>fprintf(stdout, "\\#%03o", (unsigned char)*s)\<close>\<close>

definition escape :: "byte \<Rightarrow> byte list" where
  "escape c = [BSLASH, HASH] @ printf_03o (unat c)"

subsection \<open>encode and decode\<close>

text \<open>The \<^verbatim>\<open>while (*s)\<close> loop of \<^verbatim>\<open>encode\<close>.\<close>

fun encode_loop :: "byte list \<Rightarrow> byte list" where
  "encode_loop [] = []"
| "encode_loop (c # s) =
     (if iseseq (c # s) False \<or> \<not> isprint c \<or> \<not> isascii c then escape c else [c])
     @ encode_loop s"

text \<open>\<^verbatim>\<open>encode(s)\<close>: the loop, then \<^verbatim>\<open>putchar('\n')\<close>.\<close>

definition encode :: "byte list \<Rightarrow> byte list" where
  "encode s = encode_loop s @ [LF]"

text \<open>
  The \<^verbatim>\<open>while (*s)\<close> loop of \<^verbatim>\<open>decode\<close>. \<^verbatim>\<open>putchar\<close> takes the \<^verbatim>\<open>int\<close> of
  \<^verbatim>\<open>parseeseq\<close> and writes it converted to \<^verbatim>\<open>unsigned char\<close>; \<^verbatim>\<open>s += 4\<close> and the
  \<^verbatim>\<open>s++\<close> of every round skip the five bytes of the sequence.
\<close>

fun decode_loop :: "byte list \<Rightarrow> byte list" where
  "decode_loop [] = []"
| "decode_loop (c # s) =
     (if iseseq (c # s) True then word_of_int (parseeseq (c # s)) # decode_loop (drop 4 s)
      else c # decode_loop s)"


subsection \<open>The program's state and its environment\<close>

text \<open>
  The three file-scope variables. \<^verbatim>\<open>s_inpstr\<close> is a \<^verbatim>\<open>FILE *\<close>: \<open>None\<close> is the null
  pointer it starts as, \<open>Some Stdin\<close> is \<^verbatim>\<open>stdin\<close>, and \<open>Some (File p)\<close> is what
  \<^verbatim>\<open>fopen(p, "r")\<close> returned.
\<close>

datatype stream = Stdin | File string

record flags =
  s_decode :: bool
  s_inpstr :: "stream option"
  s_nulterm :: bool

definition flags0 :: flags where
  "flags0 = \<lparr>s_decode = False, s_inpstr = None, s_nulterm = False\<rparr>"

text \<open>
  What the program asks of its surroundings: whether \<^verbatim>\<open>fopen\<close> of a path succeeds, the
  bytes \<^verbatim>\<open>getc\<close> delivers from a stream before it returns \<^verbatim>\<open>EOF\<close>, whether \<^verbatim>\<open>ferror\<close>
  is set then, and whether \<^verbatim>\<open>malloc\<close> or \<^verbatim>\<open>realloc\<close> of a number of bytes succeeds.
\<close>

record env =
  fopen_ok :: "string \<Rightarrow> bool"
  getc_bytes :: "stream \<Rightarrow> byte list"
  ferror :: "stream \<Rightarrow> bool"
  alloc_ok :: "nat \<Rightarrow> bool"

text \<open>The diagnostics of \<^verbatim>\<open>err\<close>, \<^verbatim>\<open>errx\<close> and \<^verbatim>\<open>warnx\<close>, all written to standard error.\<close>

datatype diag =
    Fopen_failed string
  | Args_and_f
  | Ignoring_0
  | Malloc_failed
  | Realloc_failed
  | Fgetc_failed
  | Terminator_missing

datatype ostream = Stdout | Stderr

text \<open>A store through \<^verbatim>\<open>buf\<close> outside the allocated block, or a read from a null stream.\<close>

datatype undefined_behaviour = Store_past_end | Null_stream

text \<open>
  How a run ends. \<open>Usage str ec\<close>: \<^verbatim>\<open>usage(str, a0, ec)\<close> wrote the usage text to
  \<open>str\<close> and called \<^verbatim>\<open>exit(ec)\<close>. \<open>Version\<close>: \<^verbatim>\<open>puts\<close> of name and version, then
  \<^verbatim>\<open>exit(EXIT_SUCCESS)\<close>. \<open>Fatal d out ws\<close>: \<^verbatim>\<open>err\<close> or \<^verbatim>\<open>errx\<close> wrote \<open>d\<close> and
  called \<^verbatim>\<open>exit(EXIT_FAILURE)\<close>, after \<open>out\<close> had been written to standard output and the
  warnings \<open>ws\<close> to standard error. \<open>Undefined u out ws\<close>: the run reached undefined
  behaviour \<open>u\<close>. \<open>Success out ws\<close>: \<^verbatim>\<open>main\<close> returned \<^verbatim>\<open>EXIT_SUCCESS\<close>.
\<close>

datatype outcome =
    Usage ostream nat
  | Version
  | Fatal diag "byte list" "diag list"
  | Undefined undefined_behaviour "byte list" "diag list"
  | Success "byte list" "diag list"

abbreviation (input) EXIT_SUCCESS :: nat where "EXIT_SUCCESS \<equiv> 0"
abbreviation (input) EXIT_FAILURE :: nat where "EXIT_FAILURE \<equiv> 1"

text \<open>The exit status of a run; none when its behaviour is undefined.\<close>

fun exit_status :: "outcome \<Rightarrow> nat option" where
  "exit_status (Usage str ec) = Some ec"
| "exit_status Version = Some EXIT_SUCCESS"
| "exit_status (Fatal d out ws) = Some EXIT_FAILURE"
| "exit_status (Undefined u out ws) = None"
| "exit_status (Success out ws) = Some EXIT_SUCCESS"

text \<open>Whether a run wrote anything to standard output, and to standard error.\<close>

fun wrote_stdout :: "outcome \<Rightarrow> bool" where
  "wrote_stdout (Usage str ec) = (str = Stdout)"
| "wrote_stdout Version = True"
| "wrote_stdout (Fatal d out ws) = (out \<noteq> [])"
| "wrote_stdout (Undefined u out ws) = (out \<noteq> [])"
| "wrote_stdout (Success out ws) = (out \<noteq> [])"

fun wrote_stderr :: "outcome \<Rightarrow> bool" where
  "wrote_stderr (Usage str ec) = (str = Stderr)"
| "wrote_stderr Version = False"
| "wrote_stderr (Fatal d out ws) = True"
| "wrote_stderr (Undefined u out ws) = (ws \<noteq> [])"
| "wrote_stderr (Success out ws) = (ws \<noteq> [])"

text \<open>\<^verbatim>\<open>decode(s)\<close>: the loop, then \<^verbatim>\<open>putchar(s_nulterm ? '\0' : '\n')\<close>.\<close>

definition decode :: "flags \<Rightarrow> byte list \<Rightarrow> byte list" where
  "decode fl s = decode_loop s @ [if s_nulterm fl then NUL else LF]"

subsection \<open>process_args\<close>

text \<open>
  An invocation is given as \<^verbatim>\<open>getopt\<close> reads it: the options in order, each the character
  \<^verbatim>\<open>getopt\<close> returns with its \<^verbatim>\<open>optarg\<close> (\<open>?\<close> for an option that is not in
  \<^verbatim>\<open>"edf:0hV"\<close>), and the positional arguments left from \<^verbatim>\<open>optind\<close> on.

  One round of the \<^verbatim>\<open>switch\<close>. The case for \<open>f\<close> has no \<^verbatim>\<open>break\<close> and runs on into the
  case for \<open>0\<close>.
\<close>

definition case_0 :: "flags \<Rightarrow> flags" where
  "case_0 fl = fl\<lparr>s_nulterm := True\<rparr>"

definition handle_opt :: "env \<Rightarrow> flags \<Rightarrow> char \<times> string \<Rightarrow> outcome + flags" where
  "handle_opt E fl opt =
     (let ch = fst opt; optarg = snd opt in
      if ch = CHR ''e'' \<or> ch = CHR ''d'' then Inr (fl\<lparr>s_decode := (ch = CHR ''d'')\<rparr>)
      else if ch = CHR ''f'' then
        (if optarg = ''-'' then Inr (case_0 (fl\<lparr>s_inpstr := Some Stdin\<rparr>))
         else if fopen_ok E optarg then Inr (case_0 (fl\<lparr>s_inpstr := Some (File optarg)\<rparr>))
         else Inl (Fatal (Fopen_failed optarg) [] []))
      else if ch = CHR ''0'' then Inr (case_0 fl)
      else if ch = CHR ''h'' then Inl (Usage Stdout EXIT_SUCCESS)
      else if ch = CHR ''V'' then Inl Version
      else Inl (Usage Stderr EXIT_FAILURE))"

text \<open>The \<^verbatim>\<open>for\<close> loop over \<^verbatim>\<open>getopt\<close>.\<close>

fun getopt_loop :: "env \<Rightarrow> flags \<Rightarrow> (char \<times> string) list \<Rightarrow> outcome + flags" where
  "getopt_loop E fl [] = Inr fl"
| "getopt_loop E fl (opt # opts) =
     (case handle_opt E fl opt of
        Inl x \<Rightarrow> Inl x
      | Inr fl' \<Rightarrow> getopt_loop E fl' opts)"

text \<open>
  \<^verbatim>\<open>process_args\<close>: the loop, then the three checks on the positional arguments. It ends
  the run, or returns the flags and the warnings written.
\<close>

definition process_args ::
  "env \<Rightarrow> (char \<times> string) list \<Rightarrow> byte list list \<Rightarrow> outcome + flags \<times> diag list" where
  "process_args E opts args =
     (case getopt_loop E flags0 opts of
        Inl x \<Rightarrow> Inl x
      | Inr fl \<Rightarrow>
          if args \<noteq> [] \<and> s_inpstr fl \<noteq> None then Inl (Fatal Args_and_f [] [])
          else
            let fl1 = (if args = [] \<and> s_inpstr fl = None then fl\<lparr>s_inpstr := Some Stdin\<rparr> else fl)
            in if args \<noteq> [] \<and> \<not> s_decode fl1 \<and> s_nulterm fl1
               then Inr (fl1\<lparr>s_nulterm := False\<rparr>, [Ignoring_0])
               else Inr (fl1, []))"

subsection \<open>main\<close>

text \<open>\<^verbatim>\<open>encdec\<close>: the function pointer \<^verbatim>\<open>s_decode ? decode : encode\<close>.\<close>

definition encdec :: "flags \<Rightarrow> byte list \<Rightarrow> byte list" where
  "encdec fl = (if s_decode fl then decode fl else encode)"

text \<open>The byte the read loop compares each input byte with.\<close>

definition in_terminator :: "flags \<Rightarrow> byte" where
  "in_terminator fl = (if \<not> s_decode fl \<and> s_nulterm fl then NUL else LF)"

text \<open>
  The buffer holds a C string once a NUL is stored behind its \<open>bufpos\<close> bytes: what
  \<^verbatim>\<open>encdec(buf)\<close> reads is the bytes before the first NUL.
\<close>

definition cstr :: "byte list \<Rightarrow> byte list" where
  "cstr buf = takeWhile (\<lambda>b. b \<noteq> NUL) buf"

text \<open>
  The \<^verbatim>\<open>while ((c = getc(s_inpstr)) != EOF)\<close> loop. \<open>bufsz\<close> is the size of the block
  \<^verbatim>\<open>buf\<close> points to, \<open>buf\<close> the bytes stored at \<^verbatim>\<open>buf[0..bufpos)\<close>, so \<open>bufpos\<close> is its
  length; \<open>out\<close> is what has been written to standard output, \<open>ws\<close> the warnings so far.
  Either store, \<^verbatim>\<open>buf[bufpos] = '\0'\<close> and \<^verbatim>\<open>buf[bufpos++] = c\<close>, is inside the block only
  when \<open>bufpos < bufsz\<close>. \<open>bufsz\<close> is a \<^verbatim>\<open>size_t\<close>; it is a natural number here, since
  \<^verbatim>\<open>bufsz *= 2\<close> wraps around only behind a block of half the address space.
\<close>

fun read_loop ::
  "env \<Rightarrow> flags \<Rightarrow> diag list \<Rightarrow> nat \<Rightarrow> byte list \<Rightarrow> byte list \<Rightarrow> byte list
    \<Rightarrow> outcome + nat \<times> byte list \<times> byte list" where
  "read_loop E fl ws bufsz buf out [] = Inr (bufsz, buf, out)"
| "read_loop E fl ws bufsz buf out (c # cs) =
     (if length buf \<ge> bufsz \<and> \<not> alloc_ok E (bufsz * 2) then Inl (Fatal Realloc_failed out ws)
      else
        let bufsz' = (if length buf \<ge> bufsz then bufsz * 2 else bufsz) in
        if \<not> length buf < bufsz' then Inl (Undefined Store_past_end out ws)
        else if c = in_terminator fl
          then read_loop E fl ws bufsz' [] (out @ encdec fl (cstr buf)) cs
          else read_loop E fl ws bufsz' (buf @ [c]) out cs)"

text \<open>
  The part of \<^verbatim>\<open>main\<close> that reads the stream: \<^verbatim>\<open>malloc(1024)\<close>, the loop, the \<^verbatim>\<open>ferror\<close>
  check, and the last entry when \<open>bufpos\<close> is not zero.
\<close>

definition stream_mode :: "env \<Rightarrow> flags \<Rightarrow> diag list \<Rightarrow> outcome" where
  "stream_mode E fl ws =
     (case s_inpstr fl of
        None \<Rightarrow> Undefined Null_stream [] ws
      | Some str \<Rightarrow>
          if \<not> alloc_ok E 1024 then Fatal Malloc_failed [] ws
          else
            (case read_loop E fl ws 1024 [] [] (getc_bytes E str) of
               Inl x \<Rightarrow> x
             | Inr (bufsz, buf, out) \<Rightarrow>
                 if ferror E str then Fatal Fgetc_failed out ws
                 else if buf \<noteq> [] then
                   (if length buf < bufsz
                    then Success (out @ encdec fl (cstr buf)) (ws @ [Terminator_missing])
                    else Undefined Store_past_end out (ws @ [Terminator_missing]))
                 else Success out ws))"

text \<open>
  \<^verbatim>\<open>main\<close>: with positional arguments, each is one record (a C string, so it has no NUL);
  without, the stream is read.
\<close>

definition rscode_main :: "env \<Rightarrow> (char \<times> string) list \<Rightarrow> byte list list \<Rightarrow> outcome" where
  "rscode_main E opts args =
     (case process_args E opts args of
        Inl x \<Rightarrow> x
      | Inr (fl, ws) \<Rightarrow>
          if args \<noteq> [] then Success (concat (map (encdec fl) args)) ws
          else stream_mode E fl ws)"

subsection \<open>Notions of the specification\<close>

text \<open>
  An escape token at the head of a text, in the specification's words: a backslash, a
  \<open>#\<close>, and three bytes of a digit class. The lenient class is \<^verbatim>\<open>0\<close> to \<^verbatim>\<open>9\<close>
  (\<^const>\<open>isdigit\<close>), the strict class \<^verbatim>\<open>0\<close> to \<^verbatim>\<open>7\<close> (\<^const>\<open>isodigit\<close>).
\<close>

fun token :: "(byte \<Rightarrow> bool) \<Rightarrow> byte list \<Rightarrow> bool" where
  "token dig (b # h # d1 # d2 # d3 # r) = (b = BSLASH \<and> h = HASH \<and> dig d1 \<and> dig d2 \<and> dig d3)"
| "token dig s = False"

text \<open>A record with no backslash that starts a lenient token, at any position.\<close>

fun lookalike_free :: "byte list \<Rightarrow> bool" where
  "lookalike_free [] = True"
| "lookalike_free (c # s) = (\<not> token isdigit (c # s) \<and> lookalike_free s)"

text \<open>The number that three octal digits denote.\<close>

definition octal_number :: "byte \<Rightarrow> byte \<Rightarrow> byte \<Rightarrow> nat" where
  "octal_number d1 d2 d3 = 64 * (unat d1 - 48) + 8 * (unat d2 - 48) + (unat d3 - 48)"

text \<open>
  Splitting a stream at a terminator byte: the records that end with a terminator, in
  order, and the bytes left behind the last terminator. \<open>pend\<close> is the part of the current
  record already read.
\<close>

fun split_records :: "byte \<Rightarrow> byte list \<Rightarrow> byte list \<Rightarrow> byte list list \<times> byte list" where
  "split_records t pend [] = ([], pend)"
| "split_records t pend (c # cs) =
     (if c = t then (pend # fst (split_records t [] cs), snd (split_records t [] cs))
      else split_records t (pend @ [c]) cs)"

section \<open>Escape sequences: printing and parsing\<close>

declare octal.simps [simp del]

lemma octal_1: "n < 8 \<Longrightarrow> octal n = [0x30 + of_nat n]"
  by (subst octal.simps) simp

lemma octal_2:
  assumes "8 \<le> n" "n < 64"
  shows "octal n = [0x30 + of_nat (n div 8), 0x30 + of_nat (n mod 8)]"
proof -
  from assms have "\<not> n < 8" "n div 8 < 8" by simp_all
  then show ?thesis by (subst octal.simps) (simp add: octal_1)
qed

lemma octal_3:
  assumes "64 \<le> n" "n < 512"
  shows "octal n =
    [0x30 + of_nat (n div 64), 0x30 + of_nat (n div 8 mod 8), 0x30 + of_nat (n mod 8)]"
proof -
  from assms have a: "\<not> n < 8" "8 \<le> n div 8" "n div 8 < 64" by simp_all
  have b: "n div 8 div 8 = n div 64" by (simp add: div_mult2_eq[symmetric])
  show ?thesis using a(1) by (subst octal.simps) (simp add: octal_2[OF a(2,3)] b)
qed

lemma replicate_2: "replicate 2 x = [x, x]"
  by (simp add: numeral_2_eq_2)

lemma printf_03o_lt512:
  assumes "n < 512"
  shows "printf_03o n =
    [0x30 + of_nat (n div 64), 0x30 + of_nat (n div 8 mod 8), 0x30 + of_nat (n mod 8)]"
proof -
  consider "n < 8" | "8 \<le> n" "n < 64" | "64 \<le> n"
    by linarith
  then show ?thesis
  proof cases
    case 1
    then show ?thesis by (simp add: printf_03o_def octal_1 replicate_2)
  next
    case 2
    then show ?thesis by (simp add: printf_03o_def octal_2)
  next
    case 3
    with assms show ?thesis by (simp add: printf_03o_def octal_3)
  qed
qed

lemma escape_eq:
  "escape c = [BSLASH, HASH, 0x30 + of_nat (unat c div 64), 0x30 + of_nat (unat c div 8 mod 8),
               0x30 + of_nat (unat c mod 8)]"
proof -
  have "unat c < 256" using unsigned_less[of c] by simp
  then show ?thesis by (simp add: escape_def printf_03o_lt512)
qed

lemma isodigit_unat: "isodigit c \<longleftrightarrow> 48 \<le> unat c \<and> unat c \<le> 55"
  by (simp add: isodigit_def word_le_nat_alt)

lemma isdigit_unat: "isdigit c \<longleftrightarrow> 48 \<le> unat c \<and> unat c \<le> 57"
  by (simp add: isdigit_def word_le_nat_alt)

lemma isprint_unat: "isprint c \<longleftrightarrow> 32 \<le> unat c \<and> unat c \<le> 126"
  by (simp add: isprint_def word_le_nat_alt)

lemma isascii_unat: "isascii c \<longleftrightarrow> unat c < 128"
  by (simp add: isascii_def word_less_nat_alt)

lemma digit_unat: "k < 8 \<Longrightarrow> unat (0x30 + of_nat k :: byte) = 48 + k"
  by (simp add: unat_word_ariths unat_of_nat)

lemma isodigit_digit: "k < 8 \<Longrightarrow> isodigit (0x30 + of_nat k)"
  by (simp add: isodigit_unat digit_unat)

lemma isodigit_imp_isdigit: "isodigit c \<Longrightarrow> isdigit c"
  by (simp add: isodigit_unat isdigit_unat)

lemma isodigit_not_bslash: "isodigit c \<Longrightarrow> c \<noteq> BSLASH"
  by (auto simp: isodigit_def)

lemma oct_value:
  "n < 256 \<Longrightarrow> 64 * (n div 64) + 8 * (n div 8 mod 8) + n mod 8 = (n::nat)"
proof -
  assume "n < 256"
  have "n = 8 * (n div 8) + n mod 8" by simp
  moreover have "n div 8 = 8 * (n div 8 div 8) + n div 8 mod 8" by simp
  moreover have "n div 8 div 8 = n div 64" by (simp add: div_mult2_eq[symmetric])
  ultimately show ?thesis by linarith
qed

section \<open>iseseq is the specification's token test\<close>

lemma iseseq_short: "length s < 5 \<Longrightarrow> \<not> iseseq s strict"
  by (simp add: iseseq_def)

lemma iseseq_5:
  "iseseq (c # a # d1 # d2 # d3 # r) strict \<longleftrightarrow>
     c = BSLASH \<and> a = HASH \<and>
     (if strict then isodigit d1 \<and> isodigit d2 \<and> isodigit d3
      else isdigit d1 \<and> isdigit d2 \<and> isdigit d3)"
  by (simp add: iseseq_def deref_def)

lemma len5: "5 \<le> length s \<Longrightarrow> \<exists>a b c d e r. s = a # b # c # d # e # r"
  by (simp add: eval_nat_numeral Suc_le_length_iff) blast

lemma token_short: "length s < 5 \<Longrightarrow> \<not> token dig s"
  by (induction dig s rule: token.induct) simp_all

lemma iseseq_token: "iseseq s strict = token (if strict then isodigit else isdigit) s"
proof (cases "length s < 5")
  case True
  then show ?thesis by (simp add: iseseq_short token_short)
next
  case False
  then obtain a b c d e r where "s = a # b # c # d # e # r"
    using len5[of s] by auto
  then show ?thesis by (simp add: iseseq_5)
qed

lemma token_elim:
  assumes "token dig (c # s)"
  obtains d1 d2 d3 r where "c = BSLASH" "s = HASH # d1 # d2 # d3 # r" "dig d1" "dig d2" "dig d3"
proof -
  from assms have "\<not> length (c # s) < 5" using token_short by blast
  then obtain a b x d e r where s: "c # s = a # b # x # d # e # r"
    using len5[of "c # s"] by auto
  with assms that show ?thesis by simp
qed

section \<open>Decoding\<close>

lemma uint_sub48:
  assumes "isodigit d"
  shows "uint d - 48 = int (unat d - 48)"
proof -
  from assms have "48 \<le> unat d" by (simp add: isodigit_unat)
  then show ?thesis by (simp add: of_nat_diff)
qed

lemma strtol8_3digits:
  assumes "isodigit d1" "isodigit d2" "isodigit d3"
  shows "strtol8 0 [d1, d2, d3] = int (octal_number d1 d2 d3)"
  using assms by (simp add: octal_number_def uint_sub48)

lemma decode_loop_token:
  assumes "isodigit d1" "isodigit d2" "isodigit d3"
  shows "decode_loop (BSLASH # HASH # d1 # d2 # d3 # r) = of_nat (octal_number d1 d2 d3) # decode_loop r"
proof -
  have "iseseq (BSLASH # HASH # d1 # d2 # d3 # r) True"
    using assms by (simp add: iseseq_5)
  moreover have "parseeseq (BSLASH # HASH # d1 # d2 # d3 # r) = int (octal_number d1 d2 d3)"
    using strtol8_3digits[OF assms] by (simp add: parseeseq_def)
  ultimately show ?thesis by simp
qed

lemma decode_loop_literal: "\<not> token isodigit (c # s) \<Longrightarrow> decode_loop (c # s) = c # decode_loop s"
  by (simp add: iseseq_token)

lemma octal_number_digits:
  "a < 8 \<Longrightarrow> b < 8 \<Longrightarrow> c < 8 \<Longrightarrow>
   octal_number (0x30 + of_nat a) (0x30 + of_nat b) (0x30 + of_nat c) = 64 * a + 8 * b + c"
  by (simp add: octal_number_def digit_unat)

lemma decode_loop_escape: "decode_loop (escape c @ rest) = c # decode_loop rest"
proof -
  let ?n = "unat c"
  have n: "?n < 256" using unsigned_less[of c] by simp
  then have d: "?n div 64 < 8" "?n div 8 mod 8 < 8" "?n mod 8 < 8" by simp_all
  have "(of_nat (64 * (?n div 64) + 8 * (?n div 8 mod 8) + ?n mod 8) :: byte) = of_nat ?n"
    by (simp only: oct_value[OF n])
  then show ?thesis
    using d by (simp add: escape_eq decode_loop_token isodigit_digit octal_number_digits del: decode_loop.simps)
qed

section \<open>Encoding\<close>

lemma encode_loop_head:
  assumes "encode_loop s = x # t" "x \<noteq> BSLASH"
  shows "\<exists>s'. s = x # s' \<and> t = encode_loop s'"
proof (cases s)
  case Nil
  with assms show ?thesis by simp
next
  case (Cons c s')
  show ?thesis
  proof (cases "iseseq (c # s') False \<or> \<not> isprint c \<or> \<not> isascii c")
    case True
    with Cons assms show ?thesis by (simp add: escape_eq)
  next
    case False
    with Cons assms show ?thesis by simp
  qed
qed

lemma not_token_encoded:
  assumes "\<not> token isdigit (c # s)"
  shows "\<not> token isodigit (c # encode_loop s)"
proof
  assume "token isodigit (c # encode_loop s)"
  then obtain d1 d2 d3 r where c: "c = BSLASH" and e: "encode_loop s = HASH # d1 # d2 # d3 # r"
    and d: "isodigit d1" "isodigit d2" "isodigit d3"
    by (rule token_elim)
  from encode_loop_head[OF e] obtain s1 where s1: "s = HASH # s1" "d1 # d2 # d3 # r = encode_loop s1"
    by auto
  from encode_loop_head[OF s1(2)[symmetric]] isodigit_not_bslash[OF d(1)]
  obtain s2 where s2: "s1 = d1 # s2" "d2 # d3 # r = encode_loop s2" by auto
  from encode_loop_head[OF s2(2)[symmetric]] isodigit_not_bslash[OF d(2)]
  obtain s3 where s3: "s2 = d2 # s3" "d3 # r = encode_loop s3" by auto
  from encode_loop_head[OF s3(2)[symmetric]] isodigit_not_bslash[OF d(3)]
  obtain s4 where s4: "s3 = d3 # s4" by auto
  have "token isdigit (c # s)"
    using c d by (simp add: s1 s2 s3 s4 isodigit_imp_isdigit)
  with assms show False by contradiction
qed

lemma decode_encode_loop: "decode_loop (encode_loop s) = s"
proof (induction s)
  case Nil
  show ?case by simp
next
  case (Cons c s)
  show ?case
  proof (cases "iseseq (c # s) False \<or> \<not> isprint c \<or> \<not> isascii c")
    case True
    then have "encode_loop (c # s) = escape c @ encode_loop s" by simp
    then show ?thesis using Cons.IH by (simp only: decode_loop_escape)
  next
    case False
    then have e: "encode_loop (c # s) = c # encode_loop s" by simp
    from False have "\<not> token isodigit (c # encode_loop s)"
      by (simp add: not_token_encoded iseseq_token)
    then show ?thesis unfolding e using Cons.IH by (simp add: decode_loop_literal del: decode_loop.simps)
  qed
qed

lemmas byte_eval = iseseq_token isprint_unat isascii_unat isdigit_unat isodigit_unat escape_eq




section \<open>Round trip\<close>

text \<open>
  C1. For every record \<open>r\<close>, a byte sequence without NUL, in which no backslash is
  followed by \<open>#\<close> and three bytes of the lenient digit class, decoding the encoding of
  \<open>r\<close> gives \<open>r\<close> back: \<open>decode_loop (encode_loop r) = r\<close>, both taken without the
  terminator they append. (Lemma \<open>decode_encode_loop\<close> shows that the equation holds for
  every byte sequence.)
\<close>

theorem decode_encode_roundtrip:
  assumes "NUL \<notin> set r" and "lookalike_free r"
  shows "decode_loop (encode_loop r) = r"
  by (rule decode_encode_loop)

theorem decode_encode_roundtrip_witness:
  "NUL \<notin> set [0x61, BSLASH, HASH, 0x31, 0x01, 0xE9 :: byte] \<and>
   lookalike_free [0x61, BSLASH, HASH, 0x31, 0x01, 0xE9] \<and>
   encode_loop [0x61, BSLASH, HASH, 0x31, 0x01, 0xE9] =
     [0x61, BSLASH, HASH, 0x31, BSLASH, HASH, 0x30, 0x30, 0x31, BSLASH, HASH, 0x33, 0x35, 0x31] \<and>
   decode_loop (encode_loop [0x61, BSLASH, HASH, 0x31, 0x01, 0xE9]) =
     [0x61, BSLASH, HASH, 0x31, 0x01, 0xE9]"
proof -
  let ?r = "[0x61, BSLASH, HASH, 0x31, 0x01, 0xE9 :: byte]"
  have a: "NUL \<notin> set ?r" by simp
  have b: "lookalike_free ?r" by (simp add: isdigit_unat)
  have c: "encode_loop ?r =
    [0x61, BSLASH, HASH, 0x31, BSLASH, HASH, 0x30, 0x30, 0x31, BSLASH, HASH, 0x33, 0x35, 0x31]"
    by (simp add: byte_eval)
  show ?thesis by (rule conjI [OF a conjI [OF b conjI [OF c decode_encode_roundtrip [OF a b]]]])
qed

section \<open>Ambiguous backslashes\<close>




section \<open>What decode computes\<close>

lemma of_nat_mod_256: "(of_nat (n mod 256) :: byte) = of_nat n"
  by (simp add: word_eq_iff_unsigned[where ?'a = nat] unat_of_nat)

text \<open>
  C3 as stated fails: the text \<^verbatim>\<open>\#400\<close> is a strict token, and its three digits
  denote 256. \<^verbatim>\<open>decode\<close> writes the NUL byte for it: no byte has the value 256.
\<close>

theorem decode_400_counterexample:
  "decode_loop [BSLASH, HASH, 0x34, 0x30, 0x30] = [0x00] \<and>
   octal_number 0x34 0x30 0x30 = 256 \<and>
   unat (0x00 :: byte) \<noteq> octal_number 0x34 0x30 0x30"
  by (simp add: byte_eval parseeseq_def octal_number_def)

text \<open>
  C3, amended. Scanning from the left: where the next five bytes are a backslash, \<open>#\<close>
  and three octal digits, \<^verbatim>\<open>decode\<close> writes the one byte whose value is the number the
  digits denote, modulo 256 (the number itself from \<^verbatim>\<open>\#000\<close> to \<^verbatim>\<open>\#377\<close>), and goes on
  five bytes further; elsewhere it writes the current byte and goes on one byte further.
  A line feed follows the output, or a NUL when \<^verbatim>\<open>s_nulterm\<close> is set. \<^verbatim>\<open>decode\<close> is total:
  every record has an output.
\<close>

theorem decode_postcondition:
  "decode_loop s =
     (if s = [] then []
      else if token isodigit s
        then of_nat (octal_number (s ! 2) (s ! 3) (s ! 4) mod 256) # decode_loop (drop 5 s)
        else hd s # decode_loop (tl s)) \<and>
   decode fl s = decode_loop s @ [if s_nulterm fl then NUL else LF]"
proof (intro conjI)
  show "decode_loop s =
     (if s = [] then []
      else if token isodigit s
        then of_nat (octal_number (s ! 2) (s ! 3) (s ! 4) mod 256) # decode_loop (drop 5 s)
        else hd s # decode_loop (tl s))"
  proof (cases s)
    case Nil
    then show ?thesis by simp
  next
    case (Cons c s')
    show ?thesis
    proof (cases "token isodigit (c # s')")
      case True
      then obtain d1 d2 d3 r where "c = BSLASH" "s' = HASH # d1 # d2 # d3 # r"
        "isodigit d1" "isodigit d2" "isodigit d3"
        by (rule token_elim)
      then show ?thesis
        unfolding Cons by (simp add: decode_loop_token of_nat_mod_256 del: decode_loop.simps)
    next
      case False
      then show ?thesis unfolding Cons by (simp add: decode_loop_literal del: decode_loop.simps)
    qed
  qed
  show "decode fl s = decode_loop s @ [if s_nulterm fl then NUL else LF]"
    by (simp add: decode_def)
qed

section \<open>Tokens above 255\<close>



section \<open>The read loop\<close>

lemmas run_eval = rscode_main_def process_args_def handle_opt_def case_0_def flags0_def
  stream_mode_def encdec_def in_terminator_def cstr_def encode_def decode_def

lemma read_loop_no_grow:
  assumes "length buf + length inp \<le> bufsz" "in_terminator fl \<notin> set inp"
  shows "read_loop E fl ws bufsz buf out inp = Inr (bufsz, buf @ inp, out)"
  using assms
proof (induction inp arbitrary: buf)
  case Nil
  then show ?case by simp
next
  case (Cons c cs)
  from Cons.prems have a: "length buf < bufsz" "c \<noteq> in_terminator fl"
    "length (buf @ [c]) + length cs \<le> bufsz" "in_terminator fl \<notin> set cs"
    by auto
  from Cons.IH[OF a(3,4)] a(1,2) show ?case by simp
qed

lemma read_loop_split:
  assumes "\<forall>n. alloc_ok E n" "length buf \<le> bufsz" "0 < bufsz"
  shows "\<exists>bufsz'. read_loop E fl ws bufsz buf out inp =
           Inr (bufsz', snd (split_records (in_terminator fl) buf inp),
                out @ concat (map (\<lambda>r. encdec fl (cstr r)) (fst (split_records (in_terminator fl) buf inp))))
         \<and> length (snd (split_records (in_terminator fl) buf inp)) \<le> bufsz'
         \<and> (\<exists>k. bufsz' = bufsz * 2 ^ k)"
  using assms(2,3)
proof (induction inp arbitrary: bufsz buf out)
  case Nil
  then show ?case by (auto intro: exI[of _ 0])
next
  case (Cons c cs)
  let ?b = "if length buf \<ge> bufsz then bufsz * 2 else bufsz"
  from Cons.prems have b: "length buf < ?b" "0 < ?b" by auto
  have k: "\<exists>k. ?b = bufsz * 2 ^ k"
    by (cases "length buf \<ge> bufsz") (auto intro: exI[of _ 0] exI[of _ 1])
  show ?case
  proof (cases "c = in_terminator fl")
    case True
    from Cons.IH[of "[]" ?b "out @ encdec fl (cstr buf)"] b
    obtain bufsz' k' where r: "read_loop E fl ws ?b [] (out @ encdec fl (cstr buf)) cs =
           Inr (bufsz', snd (split_records (in_terminator fl) [] cs),
                (out @ encdec fl (cstr buf)) @ concat (map (\<lambda>r. encdec fl (cstr r)) (fst (split_records (in_terminator fl) [] cs))))"
      "length (snd (split_records (in_terminator fl) [] cs)) \<le> bufsz'" "bufsz' = ?b * 2 ^ k'"
      by auto
    from k obtain k0 where "?b = bufsz * 2 ^ k0" by blast
    with r(3) have "bufsz' = bufsz * 2 ^ (k0 + k')" by (simp add: power_add)
    then have "\<exists>k. bufsz' = bufsz * 2 ^ k" by blast
    with r(1,2) True b assms(1) show ?thesis by simp
  next
    case False
    from b have "length (buf @ [c]) \<le> ?b" by simp
    from Cons.IH[OF this b(2), of out]
    obtain bufsz' k' where r: "read_loop E fl ws ?b (buf @ [c]) out cs =
           Inr (bufsz', snd (split_records (in_terminator fl) (buf @ [c]) cs),
                out @ concat (map (\<lambda>r. encdec fl (cstr r)) (fst (split_records (in_terminator fl) (buf @ [c]) cs))))"
      "length (snd (split_records (in_terminator fl) (buf @ [c]) cs)) \<le> bufsz'" "bufsz' = ?b * 2 ^ k'"
      by auto
    from k obtain k0 where "?b = bufsz * 2 ^ k0" by blast
    with r(3) have "bufsz' = bufsz * 2 ^ (k0 + k')" by (simp add: power_add)
    then have "\<exists>k. bufsz' = bufsz * 2 ^ k" by blast
    with r(1,2) False b assms(1) show ?thesis by simp
  qed
qed

section \<open>Splitting\<close>

lemma split_records_concat:
  "concat (map (\<lambda>r. r @ [t]) (fst (split_records t pend inp))) @ snd (split_records t pend inp)
     = pend @ inp"
  by (induction inp arbitrary: pend) simp_all

lemma split_records_rest:
  "t \<notin> set pend \<Longrightarrow> t \<notin> set (snd (split_records t pend inp))"
  by (induction inp arbitrary: pend) simp_all

lemma split_records_recs:
  "t \<notin> set pend \<Longrightarrow> list_all (\<lambda>r. t \<notin> set r) (fst (split_records t pend inp))"
  by (induction inp arbitrary: pend) simp_all

text \<open>With \<^verbatim>\<open>s_nulterm\<close> set: what the loop and the whole stream run write.\<close>

lemma cstr_id: "NUL \<notin> set r \<Longrightarrow> cstr r = r"
  by (auto simp: cstr_def takeWhile_eq_all_conv)

lemma read_loop_nulterm:
  assumes "s_nulterm fl" and "\<forall>n. alloc_ok E n"
    and "split_records (if s_decode fl then LF else NUL) [] inp = (recs, rest)"
  shows "\<exists>bufsz. read_loop E fl ws 1024 [] [] inp =
           Inr (bufsz, rest,
                concat (map (\<lambda>r. if s_decode fl then decode_loop (cstr r) @ [NUL]
                                  else encode_loop r @ [LF]) recs))"
proof -
  from assms(1) have t: "in_terminator fl = (if s_decode fl then LF else NUL)"
    by (simp add: in_terminator_def)
  have m: "map (\<lambda>r. encdec fl (cstr r)) recs =
           map (\<lambda>r. if s_decode fl then decode_loop (cstr r) @ [NUL] else encode_loop r @ [LF]) recs"
  proof (cases "s_decode fl")
    case True
    with assms(1) show ?thesis by (simp add: encdec_def decode_def)
  next
    case False
    with assms(3) split_records_recs[of NUL "[]" inp]
    have "list_all (\<lambda>r. NUL \<notin> set r) recs" by simp
    then have "\<forall>r \<in> set recs. cstr r = r" by (simp add: list_all_iff cstr_id)
    with False show ?thesis by (simp add: encdec_def encode_def)
  qed
  from read_loop_split[OF assms(2), of "[]" 1024 fl ws "[]" inp] assms(3) t
  have "\<exists>bufsz. read_loop E fl ws 1024 [] [] inp =
           Inr (bufsz, rest, concat (map (\<lambda>r. encdec fl (cstr r)) recs))"
    by auto
  then show ?thesis unfolding m .
qed

lemma stream_mode_nulterm:
  assumes "s_nulterm fl" and "\<forall>n. alloc_ok E n" and "s_inpstr fl = Some str" and "\<not> ferror E str"
    and "split_records (if s_decode fl then LF else NUL) [] (getc_bytes E str) = (recs, [])"
  shows "stream_mode E fl ws =
           Success (concat (map (\<lambda>r. if s_decode fl then decode_loop (cstr r) @ [NUL]
                                      else encode_loop r @ [LF]) recs)) ws"
proof -
  from read_loop_nulterm[OF assms(1,2,5), of ws]
  obtain bufsz where "read_loop E fl ws 1024 [] [] (getc_bytes E str) =
           Inr (bufsz, [],
                concat (map (\<lambda>r. if s_decode fl then decode_loop (cstr r) @ [NUL]
                                  else encode_loop r @ [LF]) recs))"
    by blast
  with assms(2,3,4) show ?thesis by (simp add: stream_mode_def)
qed

text \<open>
  C4 as stated fails: with \<^verbatim>\<open>-d -0\<close> the terminator of the input is still the line feed.
  The stream \<^verbatim>\<open>a\nb\n\<close> is read as the two records \<^verbatim>\<open>a\<close> and \<^verbatim>\<open>b\<close>, each written with
  a NUL behind it; split at NUL it would be one record without terminator.
\<close>

theorem decode_nulterm_splits_at_LF_counterexample:
  "in_terminator \<lparr>s_decode = True, s_inpstr = Some Stdin, s_nulterm = True\<rparr> \<noteq> NUL \<and>
   rscode_main \<lparr>fopen_ok = (\<lambda>p. True), getc_bytes = (\<lambda>s. [0x61, LF, 0x62, LF]),
      ferror = (\<lambda>s. False), alloc_ok = (\<lambda>n. True)\<rparr> [(CHR ''d'', ''''), (CHR ''0'', '''')] []
   = Success [0x61, NUL, 0x62, NUL] []"
  by (simp add: run_eval byte_eval)

text \<open>
  C4, amended. In stream mode the read loop splits the input at one terminator byte: the
  line feed, and NUL exactly when NUL termination is set in encode mode. In decode mode
  the input is always split at line feeds. With every allocation succeeding, the loop
  from \<^verbatim>\<open>main\<close>'s initial state writes what \<^verbatim>\<open>encdec\<close> makes of each terminated record, in
  order, and leaves the bytes behind the last terminator in the buffer.
\<close>

theorem read_loop_splits_at_terminator:
  assumes "\<forall>n. alloc_ok E n"
    and "split_records (in_terminator fl) [] inp = (recs, rest)"
  shows "in_terminator fl = (if \<not> s_decode fl \<and> s_nulterm fl then NUL else LF) \<and>
         inp = concat (map (\<lambda>r. r @ [in_terminator fl]) recs) @ rest \<and>
         list_all (\<lambda>r. in_terminator fl \<notin> set r) recs \<and>
         in_terminator fl \<notin> set rest \<and>
         (\<exists>bufsz. read_loop E fl ws 1024 [] [] inp =
            Inr (bufsz, rest, concat (map (\<lambda>r. encdec fl (cstr r)) recs)))"
proof (intro conjI)
  show "in_terminator fl = (if \<not> s_decode fl \<and> s_nulterm fl then NUL else LF)"
    by (simp add: in_terminator_def)
  show "inp = concat (map (\<lambda>r. r @ [in_terminator fl]) recs) @ rest"
    using split_records_concat[of "in_terminator fl" "[]" inp] assms(2) by simp
  show "list_all (\<lambda>r. in_terminator fl \<notin> set r) recs"
    using split_records_recs[of "in_terminator fl" "[]" inp] assms(2) by simp
  show "in_terminator fl \<notin> set rest"
    using split_records_rest[of "in_terminator fl" "[]" inp] assms(2) by simp
  show "\<exists>bufsz. read_loop E fl ws 1024 [] [] inp =
            Inr (bufsz, rest, concat (map (\<lambda>r. encdec fl (cstr r)) recs))"
    using read_loop_split[OF assms(1), of "[]" 1024 fl ws "[]" inp] assms(2) by auto
qed

theorem read_loop_splits_at_terminator_witness:
  "split_records (in_terminator \<lparr>s_decode = False, s_inpstr = Some Stdin, s_nulterm = True\<rparr>) []
      [0x61, LF, NUL, 0x62, NUL, 0x63] = ([[0x61, LF], [0x62]], [0x63]) \<and>
   (\<exists>bufsz. read_loop \<lparr>fopen_ok = (\<lambda>p. True), getc_bytes = (\<lambda>s. []),
      ferror = (\<lambda>s. False), alloc_ok = (\<lambda>n. True)\<rparr>
      \<lparr>s_decode = False, s_inpstr = Some Stdin, s_nulterm = True\<rparr> [] 1024 [] []
      [0x61, LF, NUL, 0x62, NUL, 0x63] =
    Inr (bufsz, [0x63], [0x61, BSLASH, HASH, 0x30, 0x31, 0x32, LF, 0x62, LF]))"
proof -
  let ?E = "\<lparr>fopen_ok = (\<lambda>p. True), getc_bytes = (\<lambda>s. []),
      ferror = (\<lambda>s. False), alloc_ok = (\<lambda>n. True)\<rparr>"
  let ?fl = "\<lparr>s_decode = False, s_inpstr = Some Stdin, s_nulterm = True\<rparr>"
  have a: "\<forall>n. alloc_ok ?E n" by simp
  have b: "split_records (in_terminator ?fl) [] [0x61, LF, NUL, 0x62, NUL, 0x63]
      = ([[0x61, LF], [0x62]], [0x63])"
    by (simp add: in_terminator_def)
  have c: "concat (map (\<lambda>r. encdec ?fl (cstr r)) [[0x61, LF], [0x62]]) =
      [0x61, BSLASH, HASH, 0x30, 0x31, 0x32, LF, 0x62, LF]"
    by (simp add: encdec_def cstr_def encode_def byte_eval)
  note d = read_loop_splits_at_terminator [OF a b, of "[]",
      THEN conjunct2, THEN conjunct2, THEN conjunct2, THEN conjunct2, unfolded c]
  show ?thesis by (rule conjI [OF b d])
qed

section \<open>The option loop\<close>

lemma handle_opt_case_0:
  "handle_opt E (case_0 fl) opt = map_sum id case_0 (handle_opt E fl opt)"
  by (simp add: handle_opt_def case_0_def Let_def)

lemma getopt_loop_case_0:
  "getopt_loop E (case_0 fl) opts = map_sum id case_0 (getopt_loop E fl opts)"
proof (induction opts arbitrary: fl)
  case Nil
  show ?case by simp
next
  case (Cons opt opts)
  show ?case
    by (cases "handle_opt E fl opt") (simp_all add: handle_opt_case_0 Cons.IH)
qed

lemma getopt_loop_append:
  "getopt_loop E fl (xs @ ys) =
     (case getopt_loop E fl xs of Inl x \<Rightarrow> Inl x | Inr fl' \<Rightarrow> getopt_loop E fl' ys)"
  by (induction xs arbitrary: fl) (simp_all split: sum.splits)

lemma handle_opt_flags:
  assumes "handle_opt E fl opt = Inr fl'"
  shows "s_nulterm fl' = (s_nulterm fl \<or> fst opt = CHR ''0'' \<or> fst opt = CHR ''f'')"
    and "(s_inpstr fl' \<noteq> None) = (s_inpstr fl \<noteq> None \<or> fst opt = CHR ''f'')"
    and "fst opt \<noteq> CHR ''h''" and "fst opt \<noteq> CHR ''V''"
  using assms by (auto simp: handle_opt_def case_0_def Let_def split: if_splits)

lemma getopt_loop_flags:
  assumes "getopt_loop E fl opts = Inr fl'"
  shows "s_nulterm fl' = (s_nulterm fl \<or> CHR ''0'' \<in> fst ` set opts \<or> CHR ''f'' \<in> fst ` set opts)"
    and "(s_inpstr fl' \<noteq> None) = (s_inpstr fl \<noteq> None \<or> CHR ''f'' \<in> fst ` set opts)"
  using assms
proof (induction opts arbitrary: fl)
  case Nil
  { case 1 then show ?case by simp }
  { case 2 then show ?case by simp }
next
  case (Cons opt opts)
  { case 1
    then obtain fl1 where h: "handle_opt E fl opt = Inr fl1" and g: "getopt_loop E fl1 opts = Inr fl'"
      by (auto split: sum.splits)
    from Cons.IH(1)[OF g] handle_opt_flags(1)[OF h] show ?case by auto }
  { case 2
    then obtain fl1 where h: "handle_opt E fl opt = Inr fl1" and g: "getopt_loop E fl1 opts = Inr fl'"
      by (auto split: sum.splits)
    from Cons.IH(2)[OF g] handle_opt_flags(2)[OF h] show ?case by auto }
qed

lemma handle_opt_stops:
  assumes "handle_opt E fl opt = Inl x" "fst opt \<noteq> CHR ''h''" "fst opt \<noteq> CHR ''V''"
  shows "exit_status x = Some EXIT_FAILURE \<and> wrote_stderr x \<and> \<not> wrote_stdout x"
  using assms by (auto simp: handle_opt_def Let_def split: if_splits)

lemma getopt_loop_stops:
  assumes "getopt_loop E fl opts = Inl x"
    "CHR ''h'' \<notin> fst ` set opts" "CHR ''V'' \<notin> fst ` set opts"
  shows "exit_status x = Some EXIT_FAILURE \<and> wrote_stderr x \<and> \<not> wrote_stdout x"
  using assms
proof (induction opts arbitrary: fl)
  case Nil
  then show ?case by simp
next
  case (Cons opt opts)
  show ?case
  proof (cases "handle_opt E fl opt")
    case (Inl y)
    with Cons.prems have "x = y" by simp
    with Inl Cons.prems handle_opt_stops[of E fl opt x] show ?thesis by auto
  next
    case (Inr fl1)
    with Cons.prems Cons.IH[of fl1] show ?thesis by simp
  qed
qed

lemma getopt_loop_insert_0:
  assumes "CHR ''f'' \<in> fst ` set (xs @ ys)"
  shows "getopt_loop E flags0 (xs @ (CHR ''0'', a) # ys) = getopt_loop E flags0 (xs @ ys)"
proof (cases "getopt_loop E flags0 xs")
  case (Inl x)
  then show ?thesis by (simp add: getopt_loop_append)
next
  case (Inr fl1)
  have h: "handle_opt E fl1 (CHR ''0'', a) = Inr (case_0 fl1)"
    by (simp add: handle_opt_def)
  show ?thesis
  proof (cases "getopt_loop E fl1 ys")
    case (Inl x)
    with Inr h show ?thesis by (simp add: getopt_loop_append getopt_loop_case_0)
  next
    case r: (Inr fl0)
    with Inr have g: "getopt_loop E flags0 (xs @ ys) = Inr fl0"
      by (simp add: getopt_loop_append)
    from getopt_loop_flags(1)[OF g] assms have "s_nulterm fl0" by simp
    then have "case_0 fl0 = fl0" by (simp add: case_0_def)
    with Inr h r show ?thesis by (simp add: getopt_loop_append getopt_loop_case_0)
  qed
qed

section \<open>process_args\<close>

text \<open>
  C5. The case for \<^verbatim>\<open>f\<close> runs on into the case for \<^verbatim>\<open>0\<close>. So an invocation with
  \<^verbatim>\<open>-f\<close> and no positional argument runs exactly as it does with a \<^verbatim>\<open>-0\<close> added at any
  place among its options; and when \<^verbatim>\<open>process_args\<close> returns, \<^verbatim>\<open>s_nulterm\<close> is set.
  Then, with every allocation succeeding, the read loop in encode mode splits the input
  at NUL bytes, not at line feeds, and writes the encoding of each whole record with a
  line feed; in decode mode it splits at line feeds and writes each decoded record with a
  NUL behind it. For a stream that ends with its terminator the whole run writes just
  that and succeeds.
\<close>

theorem f_implies_nulterm:
  assumes "CHR ''f'' \<in> fst ` set (xs @ ys)"
  shows "rscode_main E (xs @ (CHR ''0'', a) # ys) [] = rscode_main E (xs @ ys) [] \<and>
         (\<forall>fl ws. process_args E (xs @ ys) [] = Inr (fl, ws) \<longrightarrow>
            s_nulterm fl \<and>
            in_terminator fl = (if s_decode fl then LF else NUL) \<and>
            (\<forall>s. decode fl s = decode_loop s @ [NUL]) \<and>
            (\<forall>inp recs rest.
               (\<forall>n. alloc_ok E n) \<and>
               split_records (if s_decode fl then LF else NUL) [] inp = (recs, rest) \<longrightarrow>
               (\<exists>bufsz. read_loop E fl ws 1024 [] [] inp =
                  Inr (bufsz, rest,
                       concat (map (\<lambda>r. if s_decode fl then decode_loop (cstr r) @ [NUL]
                                         else encode_loop r @ [LF]) recs)))) \<and>
            (\<forall>str recs.
               s_inpstr fl = Some str \<and> (\<forall>n. alloc_ok E n) \<and> \<not> ferror E str \<and>
               split_records (if s_decode fl then LF else NUL) [] (getc_bytes E str) = (recs, []) \<longrightarrow>
               rscode_main E (xs @ ys) [] =
                 Success (concat (map (\<lambda>r. if s_decode fl then decode_loop (cstr r) @ [NUL]
                                            else encode_loop r @ [LF]) recs)) ws))"
proof (intro conjI allI impI)
  show "rscode_main E (xs @ (CHR ''0'', a) # ys) [] = rscode_main E (xs @ ys) []"
    by (simp add: rscode_main_def process_args_def getopt_loop_insert_0[OF assms])
next
  fix fl ws
  assume p: "process_args E (xs @ ys) [] = Inr (fl, ws)"
  then obtain fl0 where g: "getopt_loop E flags0 (xs @ ys) = Inr fl0"
    by (auto simp: process_args_def split: sum.splits)
  from getopt_loop_flags(1)[OF g] assms have n0: "s_nulterm fl0" by simp
  from p g have "s_nulterm fl = s_nulterm fl0"
    by (auto simp: process_args_def Let_def split: if_splits)
  with n0 show n: "s_nulterm fl" by simp
  then show "in_terminator fl = (if s_decode fl then LF else NUL)"
    by (simp add: in_terminator_def)
  show "decode fl s = decode_loop s @ [NUL]" for s
    using n by (simp add: decode_def)
  show "\<exists>bufsz. read_loop E fl ws 1024 [] [] inp =
                  Inr (bufsz, rest,
                       concat (map (\<lambda>r. if s_decode fl then decode_loop (cstr r) @ [NUL]
                                         else encode_loop r @ [LF]) recs))"
    if "(\<forall>n. alloc_ok E n) \<and>
        split_records (if s_decode fl then LF else NUL) [] inp = (recs, rest)"
    for inp recs rest
    using that read_loop_nulterm[OF n, of E inp recs rest ws] by blast
  show "rscode_main E (xs @ ys) [] =
          Success (concat (map (\<lambda>r. if s_decode fl then decode_loop (cstr r) @ [NUL]
                                     else encode_loop r @ [LF]) recs)) ws"
    if h: "s_inpstr fl = Some str \<and> (\<forall>n. alloc_ok E n) \<and> \<not> ferror E str \<and>
        split_records (if s_decode fl then LF else NUL) [] (getc_bytes E str) = (recs, [])"
    for str recs
  proof -
    from h have "stream_mode E fl ws =
          Success (concat (map (\<lambda>r. if s_decode fl then decode_loop (cstr r) @ [NUL]
                                     else encode_loop r @ [LF]) recs)) ws"
      using stream_mode_nulterm[OF n, of E str recs ws] by blast
    with p show ?thesis by (simp add: rscode_main_def)
  qed
qed

theorem f_implies_nulterm_witness:
  "CHR ''f'' \<in> fst ` set ([(CHR ''e'', '''')] @ [(CHR ''f'', ''-'')]) \<and>
   process_args \<lparr>fopen_ok = (\<lambda>p. True), getc_bytes = (\<lambda>s. [0x61, LF, 0x62, NUL]),
      ferror = (\<lambda>s. False), alloc_ok = (\<lambda>n. True)\<rparr> ([(CHR ''e'', '''')] @ [(CHR ''f'', ''-'')]) []
     = Inr (\<lparr>s_decode = False, s_inpstr = Some Stdin, s_nulterm = True\<rparr>, []) \<and>
   split_records NUL [] [0x61, LF, 0x62, NUL] = ([[0x61, LF, 0x62]], []) \<and>
   (\<exists>bufsz. read_loop \<lparr>fopen_ok = (\<lambda>p. True), getc_bytes = (\<lambda>s. [0x61, LF, 0x62, NUL]),
      ferror = (\<lambda>s. False), alloc_ok = (\<lambda>n. True)\<rparr>
      \<lparr>s_decode = False, s_inpstr = Some Stdin, s_nulterm = True\<rparr> [] 1024 [] []
      [0x61, LF, 0x62, NUL] =
      Inr (bufsz, [], [0x61, BSLASH, HASH, 0x30, 0x31, 0x32, 0x62, LF])) \<and>
   rscode_main \<lparr>fopen_ok = (\<lambda>p. True), getc_bytes = (\<lambda>s. [0x61, LF, 0x62, NUL]),
      ferror = (\<lambda>s. False), alloc_ok = (\<lambda>n. True)\<rparr> ([(CHR ''e'', '''')] @ [(CHR ''f'', ''-'')]) []
     = Success [0x61, BSLASH, HASH, 0x30, 0x31, 0x32, 0x62, LF] [] \<and>
   rscode_main \<lparr>fopen_ok = (\<lambda>p. True), getc_bytes = (\<lambda>s. [0x61, LF, 0x62, NUL]),
      ferror = (\<lambda>s. False), alloc_ok = (\<lambda>n. True)\<rparr>
      ([(CHR ''e'', '''')] @ (CHR ''0'', '''') # [(CHR ''f'', ''-'')]) []
     = Success [0x61, BSLASH, HASH, 0x30, 0x31, 0x32, 0x62, LF] [] \<and>
   process_args \<lparr>fopen_ok = (\<lambda>p. True), getc_bytes = (\<lambda>s. [0x61, LF, 0x62, NUL]),
      ferror = (\<lambda>s. False), alloc_ok = (\<lambda>n. True)\<rparr> ([(CHR ''d'', '''')] @ [(CHR ''f'', ''-'')]) []
     = Inr (\<lparr>s_decode = True, s_inpstr = Some Stdin, s_nulterm = True\<rparr>, []) \<and>
   (\<exists>bufsz. read_loop \<lparr>fopen_ok = (\<lambda>p. True), getc_bytes = (\<lambda>s. [0x61, LF, 0x62, NUL]),
      ferror = (\<lambda>s. False), alloc_ok = (\<lambda>n. True)\<rparr>
      \<lparr>s_decode = True, s_inpstr = Some Stdin, s_nulterm = True\<rparr> [] 1024 [] []
      [0x61, LF, 0x62, NUL] =
      Inr (bufsz, [0x62, NUL], [0x61, NUL]))"
proof -
  let ?E = "\<lparr>fopen_ok = (\<lambda>p. True), getc_bytes = (\<lambda>s. [0x61, LF, 0x62, NUL]),
      ferror = (\<lambda>s. False), alloc_ok = (\<lambda>n. True)\<rparr>"
  let ?fl = "\<lparr>s_decode = False, s_inpstr = Some Stdin, s_nulterm = True\<rparr>"
  let ?opts = "[(CHR ''e'', '''')] @ [(CHR ''f'', ''-'')]"
  let ?out = "[0x61, BSLASH, HASH, 0x30, 0x31, 0x32, 0x62, LF :: byte]"
  have a: "CHR ''f'' \<in> fst ` set ?opts" by simp
  have b: "process_args ?E ?opts [] = Inr (?fl, [])"
    by (simp add: process_args_def handle_opt_def case_0_def flags0_def)
  have c: "split_records NUL [] [0x61, LF, 0x62, NUL] = ([[0x61, LF, 0x62]], [])"
    by simp
  have v: "concat (map (\<lambda>r. if s_decode ?fl then decode_loop (cstr r) @ [NUL]
                            else encode_loop r @ [LF]) [[0x61, LF, 0x62]]) = ?out"
    by (simp add: byte_eval)
  note T = f_implies_nulterm [OF a, of ?E "''''"]
  note R = T [THEN conjunct2, rule_format, OF b]
  note loop = R [THEN conjunct2, THEN conjunct2, THEN conjunct2, THEN conjunct1, rule_format,
      of "[0x61, LF, 0x62, NUL]" "[[0x61, LF, 0x62]]" "[]"]
  note run = R [THEN conjunct2, THEN conjunct2, THEN conjunct2, THEN conjunct2, rule_format,
      of Stdin "[[0x61, LF, 0x62]]"]
  have pl: "(\<forall>n. alloc_ok ?E n) \<and>
      split_records (if s_decode ?fl then LF else NUL) [] [0x61, LF, 0x62, NUL]
        = ([[0x61, LF, 0x62]], [])"
    by simp
  have pr: "s_inpstr ?fl = Some Stdin \<and> (\<forall>n. alloc_ok ?E n) \<and> \<not> ferror ?E Stdin \<and>
      split_records (if s_decode ?fl then LF else NUL) [] (getc_bytes ?E Stdin)
        = ([[0x61, LF, 0x62]], [])"
    by simp
  note d = loop [OF pl, unfolded v]
  note e = run [OF pr, unfolded v]
  note f = T [THEN conjunct1, unfolded e]
  let ?fld = "\<lparr>s_decode = True, s_inpstr = Some Stdin, s_nulterm = True\<rparr>"
  let ?optsd = "[(CHR ''d'', '''')] @ [(CHR ''f'', ''-'')]"
  have ad: "CHR ''f'' \<in> fst ` set ?optsd" by simp
  have bd: "process_args ?E ?optsd [] = Inr (?fld, [])"
    by (simp add: process_args_def handle_opt_def case_0_def flags0_def)
  have vd: "concat (map (\<lambda>r. if s_decode ?fld then decode_loop (cstr r) @ [NUL]
                            else encode_loop r @ [LF]) [[0x61]]) = [0x61, NUL]"
    by (simp add: byte_eval cstr_def)
  have pd: "(\<forall>n. alloc_ok ?E n) \<and>
      split_records (if s_decode ?fld then LF else NUL) [] [0x61, LF, 0x62, NUL]
        = ([[0x61]], [0x62, NUL])"
    by simp
  note g = f_implies_nulterm [OF ad, of ?E "''''", THEN conjunct2, rule_format, OF bd,
      THEN conjunct2, THEN conjunct2, THEN conjunct2, THEN conjunct1, rule_format,
      of "[0x61, LF, 0x62, NUL]" "[[0x61]]" "[0x62, NUL]", OF pd, unfolded vd]
  show ?thesis
    by (rule conjI [OF a conjI [OF b conjI [OF c conjI [OF d conjI [OF e conjI [OF f
          conjI [OF bd g]]]]]]])
qed

text \<open>
  C7 as stated fails: \<^verbatim>\<open>-h\<close> ends the run inside the option loop, before the check of
  \<^verbatim>\<open>-f\<close> against the arguments. With \<^verbatim>\<open>-h -f - a\<close> the usage text goes to standard
  output and the exit status is 0.
\<close>

theorem help_with_f_and_args_counterexample:
  "CHR ''f'' \<in> fst ` set [(CHR ''h'', ''''), (CHR ''f'', ''-'')] \<and>
   rscode_main \<lparr>fopen_ok = (\<lambda>p. True), getc_bytes = (\<lambda>s. []),
      ferror = (\<lambda>s. False), alloc_ok = (\<lambda>n. True)\<rparr>
      [(CHR ''h'', ''''), (CHR ''f'', ''-'')] [[0x61]] = Usage Stdout EXIT_SUCCESS \<and>
   exit_status (Usage Stdout EXIT_SUCCESS) = Some 0 \<and>
   wrote_stdout (Usage Stdout EXIT_SUCCESS)"
  by (simp add: run_eval)

text \<open>
  C7, amended. An invocation with \<^verbatim>\<open>-f\<close>, at least one positional argument, and neither
  \<^verbatim>\<open>-h\<close> nor \<^verbatim>\<open>-V\<close> ends inside \<^verbatim>\<open>process_args\<close>: the exit status is
  \<^verbatim>\<open>EXIT_FAILURE\<close>, a diagnostic is on standard error, nothing is on standard output,
  and no record is read or transformed.
\<close>

theorem args_and_f_fatal:
  assumes "CHR ''f'' \<in> fst ` set opts" and "args \<noteq> []"
    and "CHR ''h'' \<notin> fst ` set opts" and "CHR ''V'' \<notin> fst ` set opts"
  shows "\<exists>x. process_args E opts args = Inl x \<and> rscode_main E opts args = x \<and>
             exit_status x = Some EXIT_FAILURE \<and> wrote_stderr x \<and> \<not> wrote_stdout x"
proof (cases "getopt_loop E flags0 opts")
  case (Inl x)
  from getopt_loop_stops[OF Inl assms(3,4)] Inl show ?thesis
    by (simp add: process_args_def rscode_main_def)
next
  case (Inr fl)
  from getopt_loop_flags(2)[OF Inr] assms(1) have "s_inpstr fl \<noteq> None" by simp
  with Inr assms(2) show ?thesis
    by (simp add: process_args_def rscode_main_def)
qed

theorem args_and_f_fatal_witness:
  "CHR ''f'' \<in> fst ` set [(CHR ''d'', ''''), (CHR ''f'', ''names.txt'')] \<and>
   [[0x61 :: byte]] \<noteq> [] \<and>
   CHR ''h'' \<notin> fst ` set [(CHR ''d'', ''''), (CHR ''f'', ''names.txt'')] \<and>
   CHR ''V'' \<notin> fst ` set [(CHR ''d'', ''''), (CHR ''f'', ''names.txt'')] \<and>
   (\<exists>x. rscode_main \<lparr>fopen_ok = (\<lambda>p. True), getc_bytes = (\<lambda>s. [0x62, LF]),
           ferror = (\<lambda>s. False), alloc_ok = (\<lambda>n. True)\<rparr>
           [(CHR ''d'', ''''), (CHR ''f'', ''names.txt'')] [[0x61]] = x \<and>
        x = Fatal Args_and_f [] [] \<and>
        exit_status x = Some EXIT_FAILURE \<and> wrote_stderr x \<and> \<not> wrote_stdout x)"
proof -
  let ?E = "\<lparr>fopen_ok = (\<lambda>p. True), getc_bytes = (\<lambda>s. [0x62, LF]),
           ferror = (\<lambda>s. False), alloc_ok = (\<lambda>n. True)\<rparr>"
  let ?opts = "[(CHR ''d'', ''''), (CHR ''f'', ''names.txt'')]"
  have a: "CHR ''f'' \<in> fst ` set ?opts" by simp
  have b: "[[0x61 :: byte]] \<noteq> []" by simp
  have c: "CHR ''h'' \<notin> fst ` set ?opts" by simp
  have d: "CHR ''V'' \<notin> fst ` set ?opts" by simp
  have e: "rscode_main ?E ?opts [[0x61]] = Fatal Args_and_f [] []"
    by (simp add: run_eval)
  from args_and_f_fatal [OF a b c d, of ?E]
  have "\<exists>x. rscode_main ?E ?opts [[0x61]] = x \<and> x = Fatal Args_and_f [] [] \<and>
        exit_status x = Some EXIT_FAILURE \<and> wrote_stderr x \<and> \<not> wrote_stdout x"
    using e by auto
  with a b c d show ?thesis by (intro conjI)
qed



section \<open>Encoded text is printable\<close>

lemma isprint_digit: "k < 8 \<Longrightarrow> isprint (0x30 + of_nat k)"
  by (simp add: isprint_unat digit_unat)

lemma escape_printable: "list_all isprint (escape c)"
proof -
  have "unat c < 256" using unsigned_less[of c] by simp
  then have "unat c div 64 < 8" "unat c div 8 mod 8 < 8" "unat c mod 8 < 8" by simp_all
  then show ?thesis by (simp add: escape_eq isprint_digit) (simp add: isprint_unat)
qed

lemma encode_loop_printable: "list_all isprint (encode_loop r)"
  by (induction r) (simp_all add: escape_printable)

text \<open>
  C6 as stated fails: \<^verbatim>\<open>encode\<close> never reads \<^verbatim>\<open>s_nulterm\<close>. With \<^verbatim>\<open>-0\<close> and the input
  \<^verbatim>\<open>a\<close>, NUL, the flag is set and the output is \<^verbatim>\<open>a\<close> and a line feed, not a NUL.
\<close>

theorem encode_terminator_counterexample:
  "process_args \<lparr>fopen_ok = (\<lambda>p. True), getc_bytes = (\<lambda>s. [0x61, NUL]),
      ferror = (\<lambda>s. False), alloc_ok = (\<lambda>n. True)\<rparr> [(CHR ''0'', '''')] []
     = Inr (\<lparr>s_decode = False, s_inpstr = Some Stdin, s_nulterm = True\<rparr>, []) \<and>
   rscode_main \<lparr>fopen_ok = (\<lambda>p. True), getc_bytes = (\<lambda>s. [0x61, NUL]),
      ferror = (\<lambda>s. False), alloc_ok = (\<lambda>n. True)\<rparr> [(CHR ''0'', '''')] []
     = Success [0x61, LF] [] \<and>
   encode [0x61] \<noteq> encode_loop [0x61] @ [NUL]"
  by (simp add: run_eval byte_eval)

text \<open>
  C6, amended. For every record, the text \<^verbatim>\<open>encode\<close> writes is followed by a line feed,
  whether NUL termination is set or not; the text itself has no line feed in it.
\<close>

theorem encode_always_newline:
  assumes "\<not> s_decode fl"
  shows "encdec fl r = encode_loop r @ [LF] \<and> LF \<notin> set (encode_loop r)"
proof -
  have "\<not> isprint LF" by (simp add: isprint_unat)
  with encode_loop_printable[of r] have "LF \<notin> set (encode_loop r)"
    by (auto simp: list_all_iff)
  with assms show ?thesis by (simp add: encdec_def encode_def)
qed

theorem encode_always_newline_witness:
  "\<not> s_decode \<lparr>s_decode = False, s_inpstr = Some Stdin, s_nulterm = True\<rparr> \<and>
   encdec \<lparr>s_decode = False, s_inpstr = Some Stdin, s_nulterm = True\<rparr> [0x61, 0x01] =
     [0x61, BSLASH, HASH, 0x30, 0x30, 0x31, LF]"
proof -
  let ?fl = "\<lparr>s_decode = False, s_inpstr = Some Stdin, s_nulterm = True\<rparr>"
  have a: "\<not> s_decode ?fl" by simp
  have b: "encode_loop [0x61, 0x01] = [0x61, BSLASH, HASH, 0x30, 0x30, 0x31]"
    by (simp add: byte_eval)
  from encode_always_newline [OF a, of "[0x61, 0x01]"]
  have "encdec ?fl [0x61, 0x01] = [0x61, BSLASH, HASH, 0x30, 0x30, 0x31, LF]"
    unfolding b by simp
  with a show ?thesis by (rule conjI)
qed

section \<open>The last entry\<close>

lemma stream_mode_terminated:
  assumes "\<forall>n. alloc_ok E n" "s_inpstr fl = Some str" "\<not> ferror E str"
    and "split_records (in_terminator fl) [] (getc_bytes E str) = (recs, [])"
  shows "stream_mode E fl ws = Success (concat (map (\<lambda>r. encdec fl (cstr r)) recs)) ws"
  using read_loop_split[OF assms(1), of "[]" 1024 fl ws "[]" "getc_bytes E str"] assms
  by (auto simp: stream_mode_def)

lemma stream_mode_unterminated:
  assumes "\<forall>n. alloc_ok E n" "s_inpstr fl = Some str" "\<not> ferror E str"
    and "split_records (in_terminator fl) [] (getc_bytes E str) = (recs, rest)"
    and "rest \<noteq> []" and "\<forall>k. length rest \<noteq> 1024 * 2 ^ k"
  shows "stream_mode E fl ws =
    Success (concat (map (\<lambda>r. encdec fl (cstr r)) recs) @ encdec fl (cstr rest))
      (ws @ [Terminator_missing])"
proof -
  from read_loop_split[OF assms(1), of "[]" 1024 fl ws "[]" "getc_bytes E str"] assms(4)
  obtain bufsz k where r: "read_loop E fl ws 1024 [] [] (getc_bytes E str) =
      Inr (bufsz, rest, concat (map (\<lambda>r. encdec fl (cstr r)) recs))"
    "length rest \<le> bufsz" "bufsz = 1024 * 2 ^ k"
    by auto
  from r(2,3) assms(6) have "length rest < bufsz"
    by (metis le_neq_implies_less)
  with r(1) assms(1,2,3,5) show ?thesis by (simp add: stream_mode_def)
qed

text \<open>
  C8. The store \<^verbatim>\<open>buf[bufpos] = '\0'\<close> behind the loop is not preceded by the check of
  \<open>bufpos\<close> against \<open>bufsz\<close> that every round of the loop makes. After 1024 bytes without
  a terminator \<open>bufpos\<close> is 1024, the size of the block, and the store is one byte past
  its end.
\<close>

theorem unterminated_1024_bytes_store_past_end:
  "rscode_main \<lparr>fopen_ok = (\<lambda>p. True), getc_bytes = (\<lambda>s. replicate 1024 0x61),
      ferror = (\<lambda>s. False), alloc_ok = (\<lambda>n. True)\<rparr> [] []
   = Undefined Store_past_end [] [Terminator_missing]"
proof -
  let ?E = "\<lparr>fopen_ok = (\<lambda>p. True), getc_bytes = (\<lambda>s. replicate 1024 0x61),
      ferror = (\<lambda>s. False), alloc_ok = (\<lambda>n. True)\<rparr>"
  let ?fl = "\<lparr>s_decode = False, s_inpstr = Some Stdin, s_nulterm = False\<rparr>"
  have p: "process_args ?E [] [] = Inr (?fl, [])"
    by (simp add: process_args_def flags0_def)
  have "in_terminator ?fl \<notin> set (replicate 1024 0x61)"
    by (simp add: in_terminator_def)
  then have "read_loop ?E ?fl [] 1024 [] [] (replicate 1024 0x61) = Inr (1024, replicate 1024 0x61, [])"
    using read_loop_no_grow[of "[]" "replicate 1024 0x61" 1024 ?fl ?E "[]" "[]"] by simp
  then have "stream_mode ?E ?fl [] = Undefined Store_past_end [] [Terminator_missing]"
    by (simp add: stream_mode_def)
  with p show ?thesis by (simp add: rscode_main_def)
qed

end
